theory Spec2Isabelle
  imports Complex_Main "HOL-Library.Word"
begin

section \<open>The audio conversion service (services/audioConverter.ts)\<close>

text \<open>
  The service \<^verbatim>\<open>extractAudioFromVideo\<close> reads a media file, has the Web Audio API decode
  and resample it to 16 kHz mono, converts the float samples to 16-bit integers, feeds them
  to the lamejs encoder in blocks of 1152 samples, flushes the encoder and wraps the
  collected chunks in a file named after the input.

  The browser and the encoder are external: they are parameters of the model. Every call to
  them is recorded, in order, in a list of events, together with what the call returned;
  what the function does to the outside world is read from that list.
\<close>

subsection \<open>JavaScript numbers and the Float32 to Int16 conversion\<close>

text \<open>
  A JavaScript number is a real, an infinity or NaN. Arithmetic on finite numbers is modelled
  exactly: the samples are 32-bit floats (24 significant bits) and the two scale factors have
  at most 16 bits, so the double-precision products computed by the source are exact.
\<close>

datatype number = Num real | PosInfinity | NegInfinity | NaN

text \<open>\<^verbatim>\<open>Math.min\<close> and \<open>Math.max\<close>: NaN if an argument is NaN.\<close>

fun Math_min :: "number \<Rightarrow> number \<Rightarrow> number" where
  "Math_min NaN _ = NaN"
| "Math_min _ NaN = NaN"
| "Math_min NegInfinity _ = NegInfinity"
| "Math_min _ NegInfinity = NegInfinity"
| "Math_min PosInfinity b = b"
| "Math_min a PosInfinity = a"
| "Math_min (Num a) (Num b) = Num (min a b)"

fun Math_max :: "number \<Rightarrow> number \<Rightarrow> number" where
  "Math_max NaN _ = NaN"
| "Math_max _ NaN = NaN"
| "Math_max PosInfinity _ = PosInfinity"
| "Math_max _ PosInfinity = PosInfinity"
| "Math_max NegInfinity b = b"
| "Math_max a NegInfinity = a"
| "Math_max (Num a) (Num b) = Num (max a b)"

text \<open>The comparison \<^verbatim>\<open>a < b\<close>: false if an argument is NaN.\<close>

fun num_less :: "number \<Rightarrow> number \<Rightarrow> bool" where
  "num_less NaN _ = False"
| "num_less _ NaN = False"
| "num_less (Num a) (Num b) = (a < b)"
| "num_less NegInfinity NegInfinity = False"
| "num_less NegInfinity _ = True"
| "num_less _ NegInfinity = False"
| "num_less PosInfinity _ = False"
| "num_less _ PosInfinity = True"

text \<open>The product \<^verbatim>\<open>s * k\<close> of a number with a finite literal \<open>k\<close>.\<close>

fun num_times :: "number \<Rightarrow> real \<Rightarrow> number" where
  "num_times NaN k = NaN"
| "num_times (Num a) k = Num (a * k)"
| "num_times PosInfinity k =
     (if k = 0 then NaN else if 0 < k then PosInfinity else NegInfinity)"
| "num_times NegInfinity k =
     (if k = 0 then NaN else if 0 < k then NegInfinity else PosInfinity)"

text \<open>Rounding towards zero.\<close>

definition trunc :: "real \<Rightarrow> int" where
  "trunc x = (if x < 0 then \<lceil>x\<rceil> else \<lfloor>x\<rfloor>)"

text \<open>
  Storing a number in an \<^verbatim>\<open>Int16Array\<close> (ToInt16): NaN and the infinities become 0, a
  finite number is rounded towards zero and reduced modulo \<open>2 ^ 16\<close>.
\<close>

fun ToInt16 :: "number \<Rightarrow> 16 word" where
  "ToInt16 (Num x) = word_of_int (trunc x)"
| "ToInt16 _ = 0"

text \<open>
  The body of the conversion loop:
  \<^verbatim>\<open>let s = Math.max(-1, Math.min(1, samples[i]));
  int16Samples[i] = s < 0 ? s * 0x8000 : s * 0x7FFF;\<close>
\<close>

definition clamp_sample :: "number \<Rightarrow> number" where
  "clamp_sample x = Math_max (Num (- 1)) (Math_min (Num 1) x)"

definition to_int16 :: "number \<Rightarrow> 16 word" where
  "to_int16 x =
     (let s = clamp_sample x
      in ToInt16 (if num_less s (Num 0) then num_times s 32768 else num_times s 32767))"

text \<open>The loop \<^verbatim>\<open>for (let i = 0; i < samples.length; i++)\<close> fills one cell per sample.\<close>

primrec int16_of_samples :: "number list \<Rightarrow> 16 word list" where
  "int16_of_samples [] = []"
| "int16_of_samples (x # xs) = to_int16 x # int16_of_samples xs"

subsection \<open>The encoder, the browser and the events\<close>

text \<open>
  The lamejs library: the constructor \<^verbatim>\<open>new lamejs.Mp3Encoder(channels, sampleRate, kbps)\<close>
  and the two methods of the encoder object, which is stateful: each call returns a chunk of
  bytes and the encoder's next state.
\<close>

record 'e lamejs =
  Mp3Encoder :: "nat \<Rightarrow> nat \<Rightarrow> nat \<Rightarrow> 'e"
  encodeBuffer :: "'e \<Rightarrow> 16 word list \<Rightarrow> 8 word list \<times> 'e"
  flush :: "'e \<Rightarrow> 8 word list \<times> 'e"

text \<open>
  The browser: \<^verbatim>\<open>window.lamejs\<close> (\<open>None\<close> when undefined), \<^verbatim>\<open>decodeAudioData\<close> and the
  offline rendering (given the decoded buffer, the channel count and the sample rate; its
  result is channel 0 of the rendered buffer). Both may reject with an exception.
\<close>

record ('e, 'b, 'x) window =
  window_lamejs :: "'e lamejs option"
  decodeAudioData :: "8 word list \<Rightarrow> 'x + 'b"
  startRendering :: "'b \<Rightarrow> nat \<Rightarrow> nat \<Rightarrow> 'x + number list"

record File =
  name :: string
  file_type :: string
  content :: "8 word list"

datatype 'x error = Error string | Rejected 'x

datatype event =
    ArrayBufferRead
  | DecodeAudioData
  | StartRendering
  | NewMp3Encoder nat nat nat
  | EncodeBuffer "16 word list" "8 word list"
  | Flush "8 word list"
  | OnProgress real

subsection \<open>The block loop\<close>

definition sampleBlockSize :: nat where
  "sampleBlockSize = 1152"

definition TARGET_SAMPLE_RATE :: nat where
  "TARGET_SAMPLE_RATE = 16000"

definition CHANNELS :: nat where
  "CHANNELS = 1"

text \<open>\<^verbatim>\<open>a.subarray(b, e)\<close> for \<open>b \<le> e\<close>: the indices are clamped to the array.\<close>

definition subarray :: "'a list \<Rightarrow> nat \<Rightarrow> nat \<Rightarrow> 'a list" where
  "subarray a b e = take (e - b) (drop b a)"

record 'e loop_state =
  remaining :: nat
  offset :: nat
  mp3Data :: "8 word list list"
  encoder :: 'e
  events :: "event list"

text \<open>
  One pass through the body of \<^verbatim>\<open>while (remaining >= sampleBlockSize)\<close>. The flag
  \<open>onProgress\<close> tells whether the caller supplied the callback; the progress value is the
  quotient of two integers, modelled as the exact real quotient.
\<close>

definition encode_block ::
  "'e lamejs \<Rightarrow> bool \<Rightarrow> 16 word list \<Rightarrow> 'e loop_state \<Rightarrow> 'e loop_state" where
  "encode_block lame onProgress int16Samples st =
     (let chunk = subarray int16Samples (offset st) (offset st + sampleBlockSize);
          (mp3buf, enc) = encodeBuffer lame (encoder st) chunk;
          data = (if length mp3buf > 0 then mp3Data st @ [mp3buf] else mp3Data st);
          remaining' = remaining st - sampleBlockSize;
          offset' = offset st + sampleBlockSize;
          progress =
            (if onProgress \<and> offset' mod (sampleBlockSize * 100) = 0
             then [OnProgress (real offset' / real (length int16Samples))] else [])
      in \<lparr>remaining = remaining', offset = offset', mp3Data = data, encoder = enc,
          events = events st @ [EncodeBuffer chunk mp3buf] @ progress\<rparr>)"

function encode_blocks ::
  "'e lamejs \<Rightarrow> bool \<Rightarrow> 16 word list \<Rightarrow> 'e loop_state \<Rightarrow> 'e loop_state" where
  "encode_blocks lame onProgress int16Samples st =
     (if remaining st \<ge> sampleBlockSize
      then encode_blocks lame onProgress int16Samples
             (encode_block lame onProgress int16Samples st)
      else st)"
  by pat_completeness auto
termination
  by (relation "measure (\<lambda>(lame, onProgress, int16Samples, st). remaining st)")
     (auto simp: encode_block_def Let_def sampleBlockSize_def split: prod.split)

declare encode_blocks.simps [simp del]

subsection \<open>The output file\<close>

text \<open>
  \<^verbatim>\<open>name.replace(/\.[^/.]+$/, "")\<close>. The pattern is a dot followed by one or more characters
  other than \<open>/\<close> and \<open>.\<close>, up to the end of the string; \<open>ext_match\<close> tells whether it matches
  at the start of its argument. \<open>replace\<close> tries each start position from left to right and
  removes the first match, which reaches the end of the string.
\<close>

definition ext_match :: "string \<Rightarrow> bool" where
  "ext_match s =
     (case s of [] \<Rightarrow> False
      | c # cs \<Rightarrow> c = CHR ''.'' \<and> cs \<noteq> [] \<and> list_all (\<lambda>d. d \<noteq> CHR ''/'' \<and> d \<noteq> CHR ''.'') cs)"

fun replace_ext :: "string \<Rightarrow> string" where
  "replace_ext [] = []"
| "replace_ext (c # cs) = (if ext_match (c # cs) then [] else c # replace_ext cs)"

definition newFileName :: "string \<Rightarrow> string" where
  "newFileName n = replace_ext n @ ''.mp3''"

subsection \<open>The service\<close>

text \<open>
  Steps 5 and 6 of the source: encoding the rendered samples and building the file. The
  \<open>Blob\<close> built from the list of chunks holds their bytes one chunk after the other.
\<close>

definition encode_samples ::
  "'e lamejs \<Rightarrow> string \<Rightarrow> bool \<Rightarrow> number list \<Rightarrow> event list \<times> File" where
  "encode_samples lame videoName onProgress samples =
     (let mp3encoder = Mp3Encoder lame CHANNELS TARGET_SAMPLE_RATE 64;
          int16Samples = int16_of_samples samples;
          st = encode_blocks lame onProgress int16Samples
                 \<lparr>remaining = length int16Samples, offset = 0, mp3Data = [],
                  encoder = mp3encoder,
                  events = [NewMp3Encoder CHANNELS TARGET_SAMPLE_RATE 64]\<rparr>;
          (mp3buf, enc) = flush lame (encoder st);
          data = (if length mp3buf > 0 then mp3Data st @ [mp3buf] else mp3Data st);
          blob = concat data
      in (events st @ [Flush mp3buf],
          \<lparr>name = newFileName videoName, file_type = ''audio/mp3'', content = blob\<rparr>))"

text \<open>
  The whole function. It throws its own \<open>Error\<close> when \<^verbatim>\<open>window.lamejs\<close> is undefined;
  a rejection of \<^verbatim>\<open>decodeAudioData\<close> or of the rendering ends it with that exception.
  Reading the file and constructing the audio contexts and the encoder are taken to succeed.
\<close>

definition extractAudioFromVideo ::
  "('e, 'b, 'x) window \<Rightarrow> File \<Rightarrow> bool \<Rightarrow> event list \<times> ('x error + File)" where
  "extractAudioFromVideo w videoFile onProgress =
     (case window_lamejs w of
        None \<Rightarrow> ([], Inl (Error ''Audio encoder library (lamejs) not loaded.''))
      | Some lame \<Rightarrow>
          (case decodeAudioData w (content videoFile) of
             Inl x \<Rightarrow> ([ArrayBufferRead, DecodeAudioData], Inl (Rejected x))
           | Inr audioBuffer \<Rightarrow>
               (case startRendering w audioBuffer CHANNELS TARGET_SAMPLE_RATE of
                  Inl x \<Rightarrow> ([ArrayBufferRead, DecodeAudioData, StartRendering], Inl (Rejected x))
                | Inr samples \<Rightarrow>
                    (let (evs, f) = encode_samples lame (name videoFile) onProgress samples
                     in ([ArrayBufferRead, DecodeAudioData, StartRendering] @ evs, Inr f)))))"

subsection \<open>Reading the events\<close>

text \<open>The arguments of the \<open>encodeBuffer\<close> calls, in call order.\<close>

fun encodeBuffer_calls :: "event list \<Rightarrow> 16 word list list" where
  "encodeBuffer_calls [] = []"
| "encodeBuffer_calls (EncodeBuffer chunk mp3buf # evs) = chunk # encodeBuffer_calls evs"
| "encodeBuffer_calls (_ # evs) = encodeBuffer_calls evs"

text \<open>The chunks returned by the encoder (\<open>encodeBuffer\<close> and \<open>flush\<close>), in call order.\<close>

fun returned_chunks :: "event list \<Rightarrow> 8 word list list" where
  "returned_chunks [] = []"
| "returned_chunks (EncodeBuffer chunk mp3buf # evs) = mp3buf # returned_chunks evs"
| "returned_chunks (Flush mp3buf # evs) = mp3buf # returned_chunks evs"
| "returned_chunks (_ # evs) = returned_chunks evs"

text \<open>The values passed to the progress callback, in call order.\<close>

fun progress_values :: "event list \<Rightarrow> real list" where
  "progress_values [] = []"
| "progress_values (OnProgress v # evs) = v # progress_values evs"
| "progress_values (_ # evs) = progress_values evs"

fun is_Flush :: "event \<Rightarrow> bool" where
  "is_Flush (Flush mp3buf) = True"
| "is_Flush _ = False"

fun is_EncodeBuffer :: "event \<Rightarrow> bool" where
  "is_EncodeBuffer (EncodeBuffer chunk mp3buf) = True"
| "is_EncodeBuffer _ = False"

subsection \<open>The blocks of a sample sequence and what the encoder answers\<close>

text \<open>The \<open>k\<close>-th window of \<open>sampleBlockSize\<close> samples, counted from 0.\<close>

definition window :: "16 word list \<Rightarrow> nat \<Rightarrow> 16 word list" where
  "window xs k = take sampleBlockSize (drop (k * sampleBlockSize) xs)"

text \<open>
  The state of a fresh encoder after it was given the first \<open>k\<close> windows in order, the chunk
  it returns for window \<open>k\<close> then, and the chunk it returns when flushed after all full windows.
\<close>

primrec encoder_after :: "'e lamejs \<Rightarrow> 16 word list \<Rightarrow> nat \<Rightarrow> 'e" where
  "encoder_after lame xs 0 = Mp3Encoder lame CHANNELS TARGET_SAMPLE_RATE 64"
| "encoder_after lame xs (Suc k) =
     snd (encodeBuffer lame (encoder_after lame xs k) (window xs k))"

definition block_chunk :: "'e lamejs \<Rightarrow> 16 word list \<Rightarrow> nat \<Rightarrow> 8 word list" where
  "block_chunk lame xs k = fst (encodeBuffer lame (encoder_after lame xs k) (window xs k))"

definition flush_chunk :: "'e lamejs \<Rightarrow> 16 word list \<Rightarrow> 8 word list" where
  "flush_chunk lame xs =
     fst (flush lame (encoder_after lame xs (length xs div sampleBlockSize)))"

text \<open>The events of block \<open>k\<close>: the call of the encoder, then the progress report if any.\<close>

definition block_events :: "'e lamejs \<Rightarrow> bool \<Rightarrow> 16 word list \<Rightarrow> nat \<Rightarrow> event list" where
  "block_events lame onProgress xs k =
     EncodeBuffer (window xs k) (block_chunk lame xs k) #
     (if onProgress \<and> (Suc k * sampleBlockSize) mod (sampleBlockSize * 100) = 0
      then [OnProgress (real (Suc k * sampleBlockSize) / real (length xs))] else [])"

subsection \<open>The quantizer and the file extension as the specification words them\<close>

definition clamp :: "real \<Rightarrow> real \<Rightarrow> real \<Rightarrow> real" where
  "clamp s lo hi = (if s < lo then lo else if hi < s then hi else s)"

definition quantize :: "real \<Rightarrow> int" where
  "quantize s =
     (let c = clamp s (- 1) 1 in if c < 0 then trunc (c * 32768) else trunc (c * 32767))"

text \<open>
  The characters after the last dot of a name (the whole name if it has no dot), the
  characters before the last dot, and whether the name ends in an extension: a last dot
  followed by one or more characters, none of them a slash.
\<close>

definition final_ext :: "string \<Rightarrow> string" where
  "final_ext n = rev (takeWhile (\<lambda>c. c \<noteq> CHR ''.'') (rev n))"

definition before_last_dot :: "string \<Rightarrow> string" where
  "before_last_dot n = rev (tl (dropWhile (\<lambda>c. c \<noteq> CHR ''.'') (rev n)))"

definition has_final_ext :: "string \<Rightarrow> bool" where
  "has_final_ext n \<longleftrightarrow>
     CHR ''.'' \<in> set n \<and> final_ext n \<noteq> [] \<and> CHR ''/'' \<notin> set (final_ext n)"

subsection \<open>A small encoder and browser to run the service on\<close>

text \<open>
  An encoder whose state counts the blocks it was given: it answers one byte (the count) to
  a block with an even count and the empty chunk to one with an odd count, and one byte to
  \<open>flush\<close>. A browser that has it and renders any file to the given samples, one without
  the encoder library, and a file.
\<close>

definition counting_encoder :: "nat lamejs" where
  "counting_encoder =
     \<lparr>Mp3Encoder = (\<lambda>channels sampleRate kbps. 0),
      encodeBuffer = (\<lambda>e chunk. (if even e then [of_nat e] else [], Suc e)),
      flush = (\<lambda>e. ([255], e))\<rparr>"

definition rendering_window :: "number list \<Rightarrow> (nat, unit, unit) window" where
  "rendering_window samples =
     \<lparr>window_lamejs = Some counting_encoder,
      decodeAudioData = (\<lambda>bytes. Inr ()),
      startRendering = (\<lambda>audioBuffer channels sampleRate. Inr samples)\<rparr>"

definition bare_window :: "(nat, unit, unit) window" where
  "bare_window =
     \<lparr>window_lamejs = None,
      decodeAudioData = (\<lambda>bytes. Inr ()),
      startRendering = (\<lambda>audioBuffer channels sampleRate. Inr [])\<rparr>"

definition clip :: File where
  "clip = \<lparr>name = ''clip.mp4'', file_type = ''video/mp4'', content = [0, 1, 2]\<rparr>"

section \<open>Auxiliary facts\<close>

subsection \<open>The quantizer\<close>

lemma trunc_neg_bounds:
  "- 1 \<le> c \<Longrightarrow> c < 0 \<Longrightarrow> - 32768 \<le> trunc (c * 32768) \<and> trunc (c * 32768) \<le> 0"
  unfolding trunc_def by (auto simp: le_ceiling_iff ceiling_le_iff)

lemma trunc_pos_bounds:
  "0 \<le> c \<Longrightarrow> c \<le> 1 \<Longrightarrow> 0 \<le> trunc (c * 32767) \<and> trunc (c * 32767) \<le> 32767"
  unfolding trunc_def by (auto simp: le_floor_iff floor_le_iff)

lemma quantize_bounds: "- 32768 \<le> quantize s \<and> quantize s \<le> 32767"
proof -
  let ?c = "clamp s (- 1) 1"
  have c: "- 1 \<le> ?c" "?c \<le> 1" by (simp_all add: clamp_def)
  show ?thesis
  proof (cases "?c < 0")
    case True
    with c trunc_neg_bounds [of ?c] show ?thesis by (simp add: quantize_def Let_def)
  next
    case False
    with c trunc_pos_bounds [of ?c] show ?thesis by (simp add: quantize_def Let_def)
  qed
qed

text \<open>An integer of the 16-bit range is stored unchanged.\<close>

lemma sint_int16: "- 32768 \<le> t \<Longrightarrow> t \<le> 32767 \<Longrightarrow> sint (word_of_int t :: 16 word) = t"
  by (simp add: int_word_sint)

lemma sint_16_range: "- 32768 \<le> sint (w :: 16 word) \<and> sint w \<le> 32767"
  using sint_ge [of w] sint_lt [of w] by simp

lemma clamp_sample_Num: "clamp_sample (Num r) = Num (clamp r (- 1) 1)"
  by (simp add: clamp_sample_def clamp_def min_def max_def)

lemma to_int16_Num: "to_int16 (Num r) = word_of_int (quantize r)"
  by (simp add: to_int16_def clamp_sample_Num quantize_def Let_def)

lemma sint_to_int16_Num: "sint (to_int16 (Num r)) = quantize r"
  using quantize_bounds [of r] by (simp add: to_int16_Num sint_int16)

text \<open>The infinities are clamped like any other sample; NaN is stored as 0.\<close>

lemma to_int16_special:
  "to_int16 PosInfinity = 32767" "to_int16 NegInfinity = - 32768" "to_int16 NaN = 0"
  by (simp_all add: to_int16_def clamp_sample_def trunc_def)

lemma int16_of_samples_map: "int16_of_samples xs = map to_int16 xs"
  by (induction xs) simp_all

subsection \<open>The block loop\<close>

lemma sampleBlockSize_pos: "0 < sampleBlockSize"
  by (simp add: sampleBlockSize_def)

lemma encode_block_at:
  assumes "offset st = j * sampleBlockSize" "encoder st = encoder_after lame xs j"
  shows "encode_block lame p xs st =
     \<lparr>remaining = remaining st - sampleBlockSize, offset = Suc j * sampleBlockSize,
      mp3Data = mp3Data st @ filter (\<lambda>c. c \<noteq> []) [block_chunk lame xs j],
      encoder = encoder_after lame xs (Suc j),
      events = events st @ block_events lame p xs j\<rparr>"
  using assms
  by (simp add: encode_block_def Let_def block_events_def block_chunk_def window_def
      subarray_def add.commute split: prod.split)

lemma encode_blocks_closed:
  assumes "offset st = j * sampleBlockSize"
    and "remaining st = length xs - j * sampleBlockSize"
    and "j * sampleBlockSize \<le> length xs"
    and "encoder st = encoder_after lame xs j"
  shows "encode_blocks lame p xs st =
     \<lparr>remaining = length xs mod sampleBlockSize,
      offset = (length xs div sampleBlockSize) * sampleBlockSize,
      mp3Data = mp3Data st @
        filter (\<lambda>c. c \<noteq> []) (map (block_chunk lame xs) [j..<length xs div sampleBlockSize]),
      encoder = encoder_after lame xs (length xs div sampleBlockSize),
      events = events st @
        concat (map (block_events lame p xs) [j..<length xs div sampleBlockSize])\<rparr>"
  using assms
proof (induction lame p xs st arbitrary: j rule: encode_blocks.induct)
  case (1 lame p xs st)
  let ?b = sampleBlockSize
  let ?n = "length xs"
  show ?case
  proof (cases "?b \<le> remaining st")
    case True
    with 1 have le: "Suc j * ?b \<le> ?n" by simp
    then have "Suc j \<le> ?n div ?b"
      using sampleBlockSize_pos by (simp only: less_eq_div_iff_mult_less_eq)
    then have lt: "j < ?n div ?b" by simp
    have step: "encode_block lame p xs st =
       \<lparr>remaining = remaining st - ?b, offset = Suc j * ?b,
        mp3Data = mp3Data st @ filter (\<lambda>c. c \<noteq> []) [block_chunk lame xs j],
        encoder = encoder_after lame xs (Suc j),
        events = events st @ block_events lame p xs j\<rparr>"
      using 1(2,5) by (rule encode_block_at)
    have ih: "encode_blocks lame p xs (encode_block lame p xs st) =
      \<lparr>remaining = ?n mod ?b, offset = (?n div ?b) * ?b,
       mp3Data = mp3Data (encode_block lame p xs st) @
         filter (\<lambda>c. c \<noteq> []) (map (block_chunk lame xs) [Suc j..<?n div ?b]),
       encoder = encoder_after lame xs (?n div ?b),
       events = events (encode_block lame p xs st) @
         concat (map (block_events lame p xs) [Suc j..<?n div ?b])\<rparr>"
      using True le 1(3) by (intro 1(1)) (simp_all add: step)
    have "encode_blocks lame p xs st = encode_blocks lame p xs (encode_block lame p xs st)"
      using True by (subst encode_blocks.simps) simp
    also note ih
    finally show ?thesis
      using lt by (simp add: step upt_conv_Cons)
  next
    case False
    with 1 have "?n < Suc j * ?b" by simp
    with 1(4) have j: "j = ?n div ?b"
      using sampleBlockSize_pos by (metis div_nat_eqI mult.commute)
    have "encode_blocks lame p xs st = st"
      using False by (subst encode_blocks.simps) simp
    moreover have "remaining st = ?n mod ?b" "offset st = (?n div ?b) * ?b"
      using 1(2,3) j by (simp_all add: modulo_nat_def mult.commute)
    ultimately show ?thesis
      using 1(5) j by simp
  qed
qed

text \<open>The events and the file of the encoding stage, in closed form.\<close>

lemma encode_samples_closed:
  "encode_samples lame nm p samples =
     (NewMp3Encoder CHANNELS TARGET_SAMPLE_RATE 64 #
        concat (map (block_events lame p (int16_of_samples samples))
                  [0..<length samples div sampleBlockSize]) @
        [Flush (flush_chunk lame (int16_of_samples samples))],
      \<lparr>name = newFileName nm, file_type = ''audio/mp3'',
       content = concat (filter (\<lambda>c. c \<noteq> [])
         (map (block_chunk lame (int16_of_samples samples))
            [0..<length samples div sampleBlockSize] @
          [flush_chunk lame (int16_of_samples samples)]))\<rparr>)"
proof -
  let ?xs = "int16_of_samples samples"
  let ?st = "\<lparr>remaining = length ?xs, offset = 0, mp3Data = [],
              encoder = Mp3Encoder lame CHANNELS TARGET_SAMPLE_RATE 64,
              events = [NewMp3Encoder CHANNELS TARGET_SAMPLE_RATE 64]\<rparr>"
  have len: "length ?xs = length samples" by (simp add: int16_of_samples_map)
  have "encode_blocks lame p ?xs ?st =
     \<lparr>remaining = length ?xs mod sampleBlockSize,
      offset = (length ?xs div sampleBlockSize) * sampleBlockSize,
      mp3Data = mp3Data ?st @
        filter (\<lambda>c. c \<noteq> []) (map (block_chunk lame ?xs) [0..<length ?xs div sampleBlockSize]),
      encoder = encoder_after lame ?xs (length ?xs div sampleBlockSize),
      events = events ?st @
        concat (map (block_events lame p ?xs) [0..<length ?xs div sampleBlockSize])\<rparr>"
    by (rule encode_blocks_closed) simp_all
  then show ?thesis
    by (simp add: encode_samples_def Let_def flush_chunk_def len split: prod.split)
qed

subsection \<open>Reading the events of the blocks\<close>

lemma encodeBuffer_calls_append:
  "encodeBuffer_calls (a @ b) = encodeBuffer_calls a @ encodeBuffer_calls b"
  by (induction a rule: encodeBuffer_calls.induct) simp_all

lemma returned_chunks_append:
  "returned_chunks (a @ b) = returned_chunks a @ returned_chunks b"
  by (induction a rule: returned_chunks.induct) simp_all

lemma progress_values_append:
  "progress_values (a @ b) = progress_values a @ progress_values b"
  by (induction a rule: progress_values.induct) simp_all

lemma encodeBuffer_calls_blocks:
  "encodeBuffer_calls (concat (map (block_events lame p xs) ks)) = map (window xs) ks"
  by (induction ks) (simp_all add: encodeBuffer_calls_append block_events_def)

lemma returned_chunks_blocks:
  "returned_chunks (concat (map (block_events lame p xs) ks)) = map (block_chunk lame xs) ks"
  by (induction ks) (simp_all add: returned_chunks_append block_events_def)

lemma no_Flush_blocks:
  "filter is_Flush (concat (map (block_events lame p xs) ks)) = []"
  by (induction ks) (simp_all add: block_events_def)

lemma length_window:
  "k < length xs div sampleBlockSize \<Longrightarrow> length (window xs k) = sampleBlockSize"
proof -
  assume "k < length xs div sampleBlockSize"
  then have "Suc k \<le> length xs div sampleBlockSize" by simp
  then have "Suc k * sampleBlockSize \<le> length xs"
    using sampleBlockSize_pos by (simp only: less_eq_div_iff_mult_less_eq)
  then show ?thesis by (simp add: window_def)
qed

subsection \<open>The progress reports\<close>

lemma progress_values_block:
  "progress_values (block_events lame p xs k) =
     (if p \<and> Suc k mod 100 = 0
      then [real (Suc k * sampleBlockSize) / real (length xs)] else [])"
proof -
  have "(Suc k * sampleBlockSize) mod (sampleBlockSize * 100) = sampleBlockSize * (Suc k mod 100)"
    by (simp only: mult_mod_right mult.commute)
  then have "(Suc k * sampleBlockSize) mod (sampleBlockSize * 100) = 0 \<longleftrightarrow> Suc k mod 100 = 0"
    using sampleBlockSize_pos by simp
  then show ?thesis
    by (simp add: block_events_def)
qed

lemma progress_values_blocks:
  "progress_values (concat (map (block_events lame p xs) [0..<N])) =
     (if p then map (\<lambda>m. real (m * (sampleBlockSize * 100)) / real (length xs))
                 [1..<Suc (N div 100)]
      else [])"
proof (induction N)
  case 0
  then show ?case by simp
next
  case (Suc N)
  show ?case
  proof (cases "Suc N mod 100 = 0")
    case True
    then have d: "Suc N div 100 = Suc (N div 100)" by (simp add: div_Suc)
    have "Suc N = Suc (N div 100) * 100"
      using True div_mult_mod_eq [of "Suc N" 100] by (simp add: div_Suc del: mult_Suc)
    then have "Suc N * sampleBlockSize = Suc (N div 100) * 100 * sampleBlockSize"
      by (rule arg_cong)
    then have e: "Suc N * sampleBlockSize = Suc (N div 100) * (sampleBlockSize * 100)"
      by (simp only: mult.assoc mult.commute [of 100])
    have "progress_values (concat (map (block_events lame p xs) [0..<Suc N])) =
          progress_values (concat (map (block_events lame p xs) [0..<N])) @
          progress_values (block_events lame p xs N)"
      by (simp add: progress_values_append)
    also have "\<dots> = (if p then map (\<lambda>m. real (m * (sampleBlockSize * 100)) / real (length xs))
                 [1..<Suc (N div 100)] @
                 [real (Suc (N div 100) * (sampleBlockSize * 100)) / real (length xs)]
      else [])"
      using True by (simp only: Suc progress_values_block e) simp
    also have "\<dots> = (if p then map (\<lambda>m. real (m * (sampleBlockSize * 100)) / real (length xs))
                 [1..<Suc (Suc N div 100)]
      else [])"
      by (simp only: d upt_Suc) (simp add: algebra_simps)
    finally show ?thesis .
  next
    case False
    then have "Suc N div 100 = N div 100" by (simp add: div_Suc)
    with False Suc show ?thesis
      by (simp add: progress_values_append progress_values_block del: mult_Suc)
  qed
qed

lemma progress_values_encode_samples:
  "progress_values (fst (encode_samples lame nm p samples)) =
     (if p then map (\<lambda>m. real (m * 115200) / real (length samples))
                 [1..<Suc (length samples div 115200)]
      else [])"
proof -
  have "length samples div sampleBlockSize div 100 = length samples div 115200"
    by (simp add: sampleBlockSize_def div_mult2_eq [symmetric])
  moreover have "sampleBlockSize * 100 = 115200" by (simp add: sampleBlockSize_def)
  ultimately show ?thesis
    by (simp add: encode_samples_closed progress_values_append progress_values_blocks
        int16_of_samples_map)
qed

subsection \<open>The file name\<close>

lemma ext_match_Cons:
  "ext_match (c # cs) \<longleftrightarrow>
     c = CHR ''.'' \<and> cs \<noteq> [] \<and> CHR ''.'' \<notin> set cs \<and> CHR ''/'' \<notin> set cs"
  by (auto simp: ext_match_def list_all_iff)

text \<open>A match is removed together with everything after it; before it nothing matches.\<close>

lemma replace_ext_match:
  assumes "ext \<noteq> []" "CHR ''.'' \<notin> set ext" "CHR ''/'' \<notin> set ext"
  shows "replace_ext (base @ CHR ''.'' # ext) = base"
  using assms by (induction base) (simp_all add: ext_match_Cons)

lemma replace_ext_no_match:
  assumes "\<And>pre c cs. n = pre @ c # cs \<Longrightarrow> \<not> ext_match (c # cs)"
  shows "replace_ext n = n"
  using assms
proof (induction n)
  case Nil
  then show ?case by simp
next
  case (Cons a n)
  have "\<not> ext_match (a # n)" using Cons.prems [of "[]" a n] by simp
  moreover have "replace_ext n = n"
  proof (rule Cons.IH)
    fix pre c cs
    assume "n = pre @ c # cs"
    then have "a # n = (a # pre) @ c # cs" by simp
    then show "\<not> ext_match (c # cs)" by (rule Cons.prems)
  qed
  ultimately show ?case by simp
qed

lemma final_ext_append:
  "CHR ''.'' \<notin> set ext \<Longrightarrow> final_ext (base @ CHR ''.'' # ext) = ext"
proof -
  assume a: "CHR ''.'' \<notin> set ext"
  have "takeWhile (\<lambda>c. c \<noteq> CHR ''.'') (rev ext @ CHR ''.'' # rev base) =
        rev ext @ takeWhile (\<lambda>c. c \<noteq> CHR ''.'') (CHR ''.'' # rev base)"
    using a by (intro takeWhile_append2) auto
  then show ?thesis by (simp add: final_ext_def)
qed

lemma split_last_dot:
  assumes "CHR ''.'' \<in> set n"
  shows "n = before_last_dot n @ CHR ''.'' # final_ext n"
proof -
  let ?P = "\<lambda>c. c \<noteq> CHR ''.''"
  let ?d = "dropWhile ?P (rev n)"
  from assms have ne: "?d \<noteq> []" by simp
  then have "hd ?d = CHR ''.''" using hd_dropWhile [of ?P "rev n"] by simp
  with ne have d: "?d = CHR ''.'' # tl ?d" by (cases ?d) simp_all
  have "rev n = takeWhile ?P (rev n) @ ?d" by simp
  then have "rev n = takeWhile ?P (rev n) @ CHR ''.'' # tl ?d" using d by simp
  then have "rev (rev n) = rev (takeWhile ?P (rev n) @ CHR ''.'' # tl ?d)" by (rule arg_cong)
  then show ?thesis by (simp add: before_last_dot_def final_ext_def)
qed

lemma final_ext_no_dot: "CHR ''.'' \<notin> set (final_ext n)"
  using set_takeWhileD [of "CHR ''.''" "\<lambda>c. c \<noteq> CHR ''.''" "rev n"]
  by (auto simp: final_ext_def)

lemma newFileName_ext:
  assumes "has_final_ext n"
  shows "newFileName n = before_last_dot n @ ''.mp3''"
proof -
  from assms have n: "n = before_last_dot n @ CHR ''.'' # final_ext n"
    by (simp add: has_final_ext_def split_last_dot)
  have "replace_ext (before_last_dot n @ CHR ''.'' # final_ext n) = before_last_dot n"
    using assms final_ext_no_dot [of n] by (intro replace_ext_match) (simp_all add: has_final_ext_def)
  with n have "replace_ext n = before_last_dot n" by simp
  then show ?thesis by (simp add: newFileName_def)
qed

lemma newFileName_no_ext:
  assumes "\<not> has_final_ext n"
  shows "newFileName n = n @ ''.mp3''"
proof -
  have "replace_ext n = n"
  proof (rule replace_ext_no_match)
    fix pre c cs
    assume n: "n = pre @ c # cs"
    show "\<not> ext_match (c # cs)"
    proof
      assume "ext_match (c # cs)"
      then have m: "c = CHR ''.''" "cs \<noteq> []" "CHR ''.'' \<notin> set cs" "CHR ''/'' \<notin> set cs"
        by (simp_all add: ext_match_Cons)
      with n have "final_ext n = cs" by (simp add: final_ext_append)
      with m n have "has_final_ext n" by (simp add: has_final_ext_def)
      with assms show False by simp
    qed
  qed
  then show ?thesis by (simp add: newFileName_def)
qed

subsection \<open>The service\<close>

lemma extractAudioFromVideo_success:
  assumes "window_lamejs w = Some lame"
    and "decodeAudioData w (content videoFile) = Inr audioBuffer"
    and "startRendering w audioBuffer CHANNELS TARGET_SAMPLE_RATE = Inr samples"
  shows "extractAudioFromVideo w videoFile p =
     ([ArrayBufferRead, DecodeAudioData, StartRendering] @
        fst (encode_samples lame (name videoFile) p samples),
      Inr (snd (encode_samples lame (name videoFile) p samples)))"
  using assms by (simp add: extractAudioFromVideo_def split: prod.split)

lemma encode_samples_file:
  "encode_samples lame nm p samples = (evs, out) \<Longrightarrow>
     name out = newFileName nm \<and> file_type out = ''audio/mp3''"
  by (auto simp: encode_samples_closed)

lemma block_events_literal:
  "block_events lame p xs =
     (\<lambda>k. EncodeBuffer (take 1152 (drop (k * 1152) xs)) (block_chunk lame xs k) #
          (if p \<and> (Suc k * 1152) mod 115200 = 0
           then [OnProgress (real (Suc k * 1152) / real (length xs))] else []))"
  by (rule ext) (simp add: block_events_def window_def sampleBlockSize_def)

lemma window_literal: "window xs = (\<lambda>k. take 1152 (drop (k * 1152) xs))"
  by (rule ext) (simp add: window_def sampleBlockSize_def)

lemma events_encode_samples:
  "fst (encode_samples lame nm p samples) =
     NewMp3Encoder 1 16000 64 #
     concat (map (block_events lame p (int16_of_samples samples)) [0..<length samples div 1152]) @
     [Flush (flush_chunk lame (int16_of_samples samples))]"
  by (simp add: encode_samples_closed sampleBlockSize_def CHANNELS_def TARGET_SAMPLE_RATE_def)

lemma encodeBuffer_calls_encode_samples:
  "encodeBuffer_calls (fst (encode_samples lame nm p samples)) =
     map (\<lambda>k. take 1152 (drop (k * 1152) (int16_of_samples samples)))
       [0..<length samples div 1152]"
  by (simp add: events_encode_samples encodeBuffer_calls_append encodeBuffer_calls_blocks
      window_literal)

lemma Flush_encode_samples:
  "filter is_Flush (fst (encode_samples lame nm p samples)) =
     [Flush (flush_chunk lame (int16_of_samples samples))]"
  by (simp add: events_encode_samples no_Flush_blocks)

lemma returned_chunks_encode_samples:
  "returned_chunks (fst (encode_samples lame nm p samples)) =
     map (block_chunk lame (int16_of_samples samples)) [0..<length samples div 1152] @
     [flush_chunk lame (int16_of_samples samples)]"
  by (simp add: events_encode_samples returned_chunks_append returned_chunks_blocks)

lemma content_encode_samples:
  "content (snd (encode_samples lame nm p samples)) =
     concat (filter (\<lambda>c. c \<noteq> [])
       (map (block_chunk lame (int16_of_samples samples)) [0..<length samples div 1152] @
        [flush_chunk lame (int16_of_samples samples)]))"
  by (simp add: encode_samples_closed sampleBlockSize_def)

lemma length_window_literal:
  "k < length xs div 1152 \<Longrightarrow> length (take 1152 (drop (k * 1152) (xs :: 16 word list))) = 1152"
  using length_window [of k xs] by (simp add: window_def sampleBlockSize_def)

lemma last_events_encode_samples:
  "fst (encode_samples lame nm p samples) \<noteq> [] \<and>
   last (fst (encode_samples lame nm p samples)) =
     Flush (flush_chunk lame (int16_of_samples samples)) \<and>
   filter is_Flush (butlast (fst (encode_samples lame nm p samples))) = []"
proof -
  let ?pre = "NewMp3Encoder 1 16000 64 #
     concat (map (block_events lame p (int16_of_samples samples)) [0..<length samples div 1152])"
  have e: "fst (encode_samples lame nm p samples) =
      ?pre @ [Flush (flush_chunk lame (int16_of_samples samples))]"
    by (simp add: events_encode_samples)
  have "filter is_Flush ?pre = []" by (simp add: no_Flush_blocks)
  then show ?thesis
    unfolding e by (simp only: butlast_snoc last_snoc) simp
qed

lemma sorted_progress:
  "sorted (map (\<lambda>m. real (m * 115200) / real n) [a..<b])"
proof -
  have "sorted_wrt (\<le>) [a..<b]" by simp
  then have "sorted_wrt (\<lambda>x y. real (x * 115200) / real n \<le> real (y * 115200) / real n) [a..<b]"
    by (rule sorted_wrt_mono_rel [rotated]) (simp add: divide_right_mono)
  then show ?thesis by (simp only: sorted_map)
qed

lemma progress_in_unit:
  assumes "m \<in> set [1..<Suc (n div 115200)]"
  shows "0 \<le> real (m * 115200) / real n \<and> real (m * 115200) / real n \<le> 1"
proof -
  from assms have "m \<le> n div 115200" by auto
  then have "m * 115200 \<le> n" by (simp only: less_eq_div_iff_mult_less_eq)
  then have "real (m * 115200) \<le> real n" by (simp only: of_nat_le_iff)
  moreover have "0 < real n"
  proof -
    from assms have "0 < m" by auto
    then have "0 < m * 115200" by simp
    with \<open>m * 115200 \<le> n\<close> show ?thesis by simp
  qed
  ultimately show ?thesis by simp
qed

section \<open>The claims\<close>

text \<open>
  The properties of the block loop are stated for \<open>encode_samples\<close>, which a successful
  invocation runs on the rendered samples after the three events of reading, decoding and
  rendering (lemma \<open>extractAudioFromVideo_success\<close>).
\<close>

text \<open>
  C1 (quantization). For every real sample \<open>s\<close> the stored 16-bit value, read as a signed
  integer, is \<open>truncate (clamp s (-1) 1 * 32768)\<close> when the clamped value is negative and
  \<open>truncate (clamp s (-1) 1 * 32767)\<close> otherwise (\<open>quantize s\<close>), so the store never wraps
  around; the samples \<open>-1\<close>, \<open>1\<close>, \<open>1.5\<close> and \<open>-1.5\<close> give \<open>-32768\<close>, \<open>32767\<close>, \<open>32767\<close>
  and \<open>-32768\<close>; every output, also that of an infinity or of NaN, lies between \<open>-32768\<close>
  and \<open>32767\<close>; the output sequence is the input sequence converted cell by cell, with
  the same length and order.
\<close>

theorem quantization:
  "sint (to_int16 (Num s)) = quantize s
   \<and> sint (to_int16 (Num (- 1))) = - 32768
   \<and> sint (to_int16 (Num 1)) = 32767
   \<and> sint (to_int16 (Num 1.5)) = 32767
   \<and> sint (to_int16 (Num (- 1.5))) = - 32768
   \<and> - 32768 \<le> sint (to_int16 x) \<and> sint (to_int16 x) \<le> 32767
   \<and> length (int16_of_samples xs) = length xs
   \<and> int16_of_samples xs = map to_int16 xs"
  using sint_16_range [of "to_int16 x"]
  by (simp add: sint_to_int16_Num int16_of_samples_map quantize_def clamp_def trunc_def)

text \<open>
  C2 (block framing). The encoder's \<open>encodeBuffer\<close> is called on the windows
  \<open>[0, 1152)\<close>, \<open>[1152, 2304)\<close>, ... of the 16-bit samples, in ascending order and on
  nothing else: \<open>length samples div 1152\<close> calls, each on exactly 1152 samples, so the
  trailing remainder is never passed. An input of 2304 samples gives 2 calls of
  \<open>encodeBuffer\<close> and 1 call of \<open>flush\<close>.
\<close>

theorem block_framing:
  "encodeBuffer_calls (fst (encode_samples lame nm p samples)) =
     map (\<lambda>k. take 1152 (drop (k * 1152) (int16_of_samples samples)))
       [0..<length samples div 1152]
   \<and> length (encodeBuffer_calls (fst (encode_samples lame nm p samples))) =
       length samples div 1152
   \<and> (\<forall>chunk \<in> set (encodeBuffer_calls (fst (encode_samples lame nm p samples))).
         length chunk = 1152)
   \<and> (length samples = 2304 \<longrightarrow>
         length (encodeBuffer_calls (fst (encode_samples lame nm p samples))) = 2
         \<and> length (filter is_Flush (fst (encode_samples lame nm p samples))) = 1)"
proof -
  have "length (int16_of_samples samples) = length samples"
    by (simp add: int16_of_samples_map)
  then have "\<forall>k < length samples div 1152.
      length (take 1152 (drop (k * 1152) (int16_of_samples samples))) = 1152"
    using length_window_literal [of _ "int16_of_samples samples"] by simp
  then show ?thesis
    by (simp add: encodeBuffer_calls_encode_samples Flush_encode_samples)
qed

theorem block_framing_witness:
  "length (replicate 2304 (Num 0)) = 2304
   \<and> length (encodeBuffer_calls
        (fst (encode_samples counting_encoder ''clip.mp4'' True (replicate 2304 (Num 0))))) = 2
   \<and> length (filter is_Flush
        (fst (encode_samples counting_encoder ''clip.mp4'' True (replicate 2304 (Num 0))))) = 1"
proof -
  have h: "length (replicate 2304 (Num 0)) = 2304"
    by (simp only: length_replicate)
  from h block_framing [of counting_encoder "''clip.mp4''" True "replicate 2304 (Num 0)"]
  show ?thesis by blast
qed

text \<open>
  C3 (chunk collection). The content of the output file is the concatenation, in call
  order, of the non-empty chunks the encoder returned; these are the chunks of the blocks
  in block order, followed by the chunk of \<open>flush\<close>.
\<close>

theorem chunk_collection:
  "content (snd (encode_samples lame nm p samples)) =
     concat (filter (\<lambda>c. c \<noteq> []) (returned_chunks (fst (encode_samples lame nm p samples))))
   \<and> returned_chunks (fst (encode_samples lame nm p samples)) =
       map (block_chunk lame (int16_of_samples samples)) [0..<length samples div 1152] @
       [flush_chunk lame (int16_of_samples samples)]"
  by (simp only: returned_chunks_encode_samples content_encode_samples)

text \<open>
  C4 (flush). Whatever the input, also when its length is a multiple of 1152, \<open>flush\<close> is
  called exactly once and its call is the last event, after every call of \<open>encodeBuffer\<close>;
  the chunk it returns may be empty. For an input of 500 samples \<open>flush\<close> is called and
  \<open>encodeBuffer\<close> is not.
\<close>

theorem flush_once:
  "length (filter is_Flush (fst (encode_samples lame nm p samples))) = 1
   \<and> fst (encode_samples lame nm p samples) \<noteq> []
   \<and> last (fst (encode_samples lame nm p samples)) =
       Flush (flush_chunk lame (int16_of_samples samples))
   \<and> filter is_Flush (butlast (fst (encode_samples lame nm p samples))) = []
   \<and> (length samples = 500 \<longrightarrow>
         encodeBuffer_calls (fst (encode_samples lame nm p samples)) = []
         \<and> length (filter is_Flush (fst (encode_samples lame nm p samples))) = 1)"
  using last_events_encode_samples [of lame nm p samples]
  by (simp add: Flush_encode_samples encodeBuffer_calls_encode_samples)

theorem flush_once_witness:
  "length (replicate 500 (Num 0)) = 500
   \<and> encodeBuffer_calls
        (fst (encode_samples counting_encoder ''clip.mp4'' True (replicate 500 (Num 0)))) = []
   \<and> length (filter is_Flush
        (fst (encode_samples counting_encoder ''clip.mp4'' True (replicate 500 (Num 0))))) = 1"
proof -
  have h: "length (replicate 500 (Num 0)) = 500"
    by (simp only: length_replicate)
  from h flush_once [of counting_encoder "''clip.mp4''" True "replicate 500 (Num 0)"]
  show ?thesis by blast
qed

text \<open>
  C5 (progress cadence). The events of the encoding are, for each full window in turn, the
  call of \<open>encodeBuffer\<close> followed, if the callback was supplied and the offset after the
  window is a multiple of \<open>1152 * 100 = 115200\<close>, by one call of the callback with the
  offset divided by the number of samples; then the call of \<open>flush\<close>. So the values passed
  are those of the offsets \<open>115200, 230400, ...\<close> up to the number of samples; there are
  none without a callback, and none for fewer than 115200 samples.
\<close>

theorem progress_cadence:
  "fst (encode_samples lame nm p samples) =
     NewMp3Encoder 1 16000 64 #
     concat (map
       (\<lambda>k. EncodeBuffer (take 1152 (drop (k * 1152) (int16_of_samples samples)))
               (block_chunk lame (int16_of_samples samples) k) #
             (if p \<and> (Suc k * 1152) mod 115200 = 0
              then [OnProgress (real (Suc k * 1152) / real (length samples))] else []))
       [0..<length samples div 1152]) @
     [Flush (flush_chunk lame (int16_of_samples samples))]
   \<and> progress_values (fst (encode_samples lame nm p samples)) =
       (if p then map (\<lambda>m. real (m * 115200) / real (length samples))
                   [1..<Suc (length samples div 115200)]
        else [])
   \<and> (length samples < 115200 \<longrightarrow>
         progress_values (fst (encode_samples lame nm p samples)) = [])"
proof (intro conjI impI)
  have len: "length (int16_of_samples samples) = length samples"
    by (simp add: int16_of_samples_map)
  show "fst (encode_samples lame nm p samples) =
     NewMp3Encoder 1 16000 64 #
     concat (map
       (\<lambda>k. EncodeBuffer (take 1152 (drop (k * 1152) (int16_of_samples samples)))
               (block_chunk lame (int16_of_samples samples) k) #
             (if p \<and> (Suc k * 1152) mod 115200 = 0
              then [OnProgress (real (Suc k * 1152) / real (length samples))] else []))
       [0..<length samples div 1152]) @
     [Flush (flush_chunk lame (int16_of_samples samples))]"
    by (simp only: events_encode_samples block_events_literal len)
  show "progress_values (fst (encode_samples lame nm p samples)) =
       (if p then map (\<lambda>m. real (m * 115200) / real (length samples))
                   [1..<Suc (length samples div 115200)]
        else [])"
    by (rule progress_values_encode_samples)
  assume "length samples < 115200"
  then show "progress_values (fst (encode_samples lame nm p samples)) = []"
    by (simp add: progress_values_encode_samples)
qed

theorem progress_cadence_witness:
  "length (replicate 2304 (Num 0)) < 115200
   \<and> progress_values
        (fst (encode_samples counting_encoder ''clip.mp4'' True (replicate 2304 (Num 0)))) = []
   \<and> progress_values
        (fst (encode_samples counting_encoder ''clip.mp4'' True (replicate 230400 (Num 0)))) =
       [1 / 2, 1]"
proof -
  have h: "length (replicate 2304 (Num 0)) < 115200"
    by simp
  have "progress_values
        (fst (encode_samples counting_encoder ''clip.mp4'' True (replicate 230400 (Num 0)))) =
        map (\<lambda>m. real (m * 115200) / real (length (replicate 230400 (Num 0))))
            [1..<Suc (length (replicate 230400 (Num 0)) div 115200)]"
    using progress_cadence [of counting_encoder "''clip.mp4''" True "replicate 230400 (Num 0)",
        THEN conjunct2, THEN conjunct1]
    by (simp only: if_True)
  also have "\<dots> = map (\<lambda>m. real (m * 115200) / 230400) [1..<Suc 2]"
    by (simp only: length_replicate) simp
  also have "\<dots> = [1 / 2, 1]"
    by (simp add: upt_rec)
  finally show ?thesis
    using h progress_cadence [of counting_encoder "''clip.mp4''" True "replicate 2304 (Num 0)"]
    by blast
qed

text \<open>
  C6 (progress values). Within one invocation the values passed to the progress callback
  are non-decreasing and each lies between 0 and 1.
\<close>

theorem progress_monotone:
  "sorted (progress_values (fst (encode_samples lame nm p samples)))
   \<and> (\<forall>v \<in> set (progress_values (fst (encode_samples lame nm p samples))). 0 \<le> v \<and> v \<le> 1)"
proof (cases p)
  case True
  have "\<forall>v \<in> set (map (\<lambda>m. real (m * 115200) / real (length samples))
                      [1..<Suc (length samples div 115200)]). 0 \<le> v \<and> v \<le> 1"
    using progress_in_unit [of _ "length samples"] by (simp only: set_map) blast
  with True show ?thesis
    by (simp only: progress_values_encode_samples if_True sorted_progress)
next
  case False
  then show ?thesis by (simp add: progress_values_encode_samples)
qed

theorem progress_monotone_witness:
  "sorted (progress_values
     (fst (encode_samples counting_encoder ''clip.mp4'' True (replicate 230400 (Num 0)))))
   \<and> progress_values
     (fst (encode_samples counting_encoder ''clip.mp4'' True (replicate 230400 (Num 0)))) \<noteq> []"
proof -
  have "progress_values
        (fst (encode_samples counting_encoder ''clip.mp4'' True (replicate 230400 (Num 0)))) =
        map (\<lambda>m. real (m * 115200) / real (length (replicate 230400 (Num 0))))
            [1..<Suc (length (replicate 230400 (Num 0)) div 115200)]"
    by (simp only: progress_values_encode_samples if_True)
  also have "\<dots> = map (\<lambda>m. real (m * 115200) / 230400) [1..<Suc 2]"
    by (simp only: length_replicate) simp
  finally have "progress_values
        (fst (encode_samples counting_encoder ''clip.mp4'' True (replicate 230400 (Num 0)))) \<noteq> []"
    by (simp add: upt_rec)
  with progress_monotone [of counting_encoder "''clip.mp4''" True "replicate 230400 (Num 0)"]
  show ?thesis by blast
qed

text \<open>
  C7 (name and type of the output). Every successful invocation returns a file of type
  \<open>audio/mp3\<close> named \<open>newFileName\<close> of the input's name. For a name that ends in an
  extension (a last dot followed by one or more characters other than a slash) this is
  the part before the last dot followed by \<open>.mp3\<close>: \<open>clip.mp4\<close> gives \<open>clip.mp3\<close> and
  \<open>clip.tar.mp4\<close> gives \<open>clip.tar.mp3\<close>.
\<close>

theorem output_name_and_type:
  "(extractAudioFromVideo w videoFile p = (evs, Inr out) \<longrightarrow>
      name out = newFileName (name videoFile) \<and> file_type out = ''audio/mp3'')
   \<and> (has_final_ext n \<longrightarrow> newFileName n = before_last_dot n @ ''.mp3'')
   \<and> newFileName ''clip.mp4'' = ''clip.mp3''
   \<and> newFileName ''clip.tar.mp4'' = ''clip.tar.mp3''"
proof (intro conjI impI)
  assume "extractAudioFromVideo w videoFile p = (evs, Inr out)"
  then show "name out = newFileName (name videoFile)" and "file_type out = ''audio/mp3''"
    by (auto simp: extractAudioFromVideo_def
        split: option.splits sum.splits prod.splits dest: encode_samples_file)
next
  assume "has_final_ext n"
  then show "newFileName n = before_last_dot n @ ''.mp3''" by (rule newFileName_ext)
next
  show "newFileName ''clip.mp4'' = ''clip.mp3''"
    by (simp add: newFileName_def ext_match_def)
  show "newFileName ''clip.tar.mp4'' = ''clip.tar.mp3''"
    by (simp add: newFileName_def ext_match_def)
qed

theorem output_name_and_type_witness:
  "has_final_ext ''clip.tar.mp4''
   \<and> newFileName ''clip.tar.mp4'' = before_last_dot ''clip.tar.mp4'' @ ''.mp3''
   \<and> before_last_dot ''clip.tar.mp4'' = ''clip.tar''
   \<and> name (snd (encode_samples counting_encoder (name clip) True [Num 0])) = ''clip.mp3''
   \<and> file_type (snd (encode_samples counting_encoder (name clip) True [Num 0])) = ''audio/mp3''"
proof -
  have h: "has_final_ext ''clip.tar.mp4''"
    by (simp add: has_final_ext_def final_ext_def)
  have b: "before_last_dot ''clip.tar.mp4'' = ''clip.tar''"
    by (simp add: before_last_dot_def)
  have e: "extractAudioFromVideo (rendering_window [Num 0]) clip True =
      (fst (extractAudioFromVideo (rendering_window [Num 0]) clip True),
       Inr (snd (encode_samples counting_encoder (name clip) True [Num 0])))"
    by (simp add: extractAudioFromVideo_success rendering_window_def)
  have c: "newFileName (name clip) = ''clip.mp3''"
    by (simp add: clip_def newFileName_def ext_match_def)
  from h b c
    output_name_and_type [of "rendering_window [Num 0]" clip True
      "fst (extractAudioFromVideo (rendering_window [Num 0]) clip True)"
      "snd (encode_samples counting_encoder (name clip) True [Num 0])" "''clip.tar.mp4''"] e
  show ?thesis by simp
qed

text \<open>
  C8 (missing encoder). If \<open>window.lamejs\<close> is undefined the service fails with the error
  "Audio encoder library (lamejs) not loaded." and no event: no file read, no decoding, no
  rendering, no encoder call. If it is defined the service never fails with an \<open>Error\<close> of
  its own; a failure is then a rejection of the decoder or of the renderer.
\<close>

theorem fail_fast:
  "(window_lamejs w = None \<longrightarrow>
      extractAudioFromVideo w videoFile p =
        ([], Inl (Error ''Audio encoder library (lamejs) not loaded.'')))
   \<and> (window_lamejs w \<noteq> None \<longrightarrow>
        (\<forall>msg. snd (extractAudioFromVideo w videoFile p) \<noteq> Inl (Error msg)))"
  by (auto simp: extractAudioFromVideo_def split: option.splits sum.splits prod.splits)

theorem fail_fast_witness:
  "window_lamejs bare_window = None
   \<and> extractAudioFromVideo bare_window clip True =
       ([], Inl (Error ''Audio encoder library (lamejs) not loaded.''))
   \<and> window_lamejs (rendering_window [Num 0]) \<noteq> None
   \<and> snd (extractAudioFromVideo (rendering_window [Num 0]) clip True) \<noteq>
       Inl (Error ''Audio encoder library (lamejs) not loaded.'')"
proof -
  have a: "window_lamejs bare_window = None" by (simp add: bare_window_def)
  have b: "window_lamejs (rendering_window [Num 0]) \<noteq> None" by (simp add: rendering_window_def)
  from a b fail_fast [of bare_window clip True] fail_fast [of "rendering_window [Num 0]" clip True]
  show ?thesis by blast
qed

text \<open>
  C9 (empty input). If the rendering yields no sample, the service succeeds: after reading,
  decoding and rendering it creates the encoder and calls \<open>flush\<close> once, never
  \<open>encodeBuffer\<close> and never the progress callback, and the content of the returned file
  is the chunk returned by \<open>flush\<close>.
\<close>

theorem empty_input:
  assumes "window_lamejs w = Some lame"
    and "decodeAudioData w (content videoFile) = Inr audioBuffer"
    and "startRendering w audioBuffer 1 16000 = Inr []"
  shows "extractAudioFromVideo w videoFile p =
     ([ArrayBufferRead, DecodeAudioData, StartRendering, NewMp3Encoder 1 16000 64,
       Flush (fst (flush lame (Mp3Encoder lame 1 16000 64)))],
      Inr \<lparr>name = newFileName (name videoFile), file_type = ''audio/mp3'',
           content = fst (flush lame (Mp3Encoder lame 1 16000 64))\<rparr>)"
proof -
  have "startRendering w audioBuffer CHANNELS TARGET_SAMPLE_RATE = Inr []"
    using assms(3) by (simp add: CHANNELS_def TARGET_SAMPLE_RATE_def)
  with assms(1,2) show ?thesis
    by (simp add: extractAudioFromVideo_success encode_samples_closed flush_chunk_def
        CHANNELS_def TARGET_SAMPLE_RATE_def)
qed

theorem empty_input_witness:
  "extractAudioFromVideo (rendering_window []) clip True =
     ([ArrayBufferRead, DecodeAudioData, StartRendering, NewMp3Encoder 1 16000 64, Flush [255]],
      Inr \<lparr>name = ''clip.mp3'', file_type = ''audio/mp3'', content = [255]\<rparr>)"
  using empty_input [of "rendering_window []" counting_encoder clip "()" True]
  by (simp add: rendering_window_def counting_encoder_def clip_def newFileName_def ext_match_def)

text \<open>
  C10 (names without an extension). A name that does not end in an extension (no dot, or
  nothing or a slash after the last dot) is kept whole and \<open>.mp3\<close> is appended: \<open>clip\<close>
  gives \<open>clip.mp3\<close> and \<open>archive.\<close> gives \<open>archive..mp3\<close>. A name that is a dot followed
  by one or more characters other than a dot and a slash is removed whole: \<open>.gitignore\<close>
  gives \<open>.mp3\<close>.
\<close>

theorem naming_edge_cases:
  "(\<not> has_final_ext n \<longrightarrow> newFileName n = n @ ''.mp3'')
   \<and> newFileName ''clip'' = ''clip.mp3''
   \<and> newFileName ''archive.'' = ''archive..mp3''
   \<and> (ext \<noteq> [] \<and> CHR ''.'' \<notin> set ext \<and> CHR ''/'' \<notin> set ext \<longrightarrow>
        newFileName (CHR ''.'' # ext) = ''.mp3'')
   \<and> newFileName ''.gitignore'' = ''.mp3''"
proof (intro conjI impI)
  assume "\<not> has_final_ext n"
  then show "newFileName n = n @ ''.mp3''" by (rule newFileName_no_ext)
next
  assume "ext \<noteq> [] \<and> CHR ''.'' \<notin> set ext \<and> CHR ''/'' \<notin> set ext"
  then show "newFileName (CHR ''.'' # ext) = ''.mp3''"
    by (simp add: newFileName_def ext_match_Cons)
next
  show "newFileName ''clip'' = ''clip.mp3''"
    by (simp add: newFileName_def ext_match_def)
  show "newFileName ''archive.'' = ''archive..mp3''"
    by (simp add: newFileName_def ext_match_def)
  show "newFileName ''.gitignore'' = ''.mp3''"
    by (simp add: newFileName_def ext_match_def)
qed

theorem naming_edge_cases_witness:
  "\<not> has_final_ext ''archive.''
   \<and> newFileName ''archive.'' = ''archive.'' @ ''.mp3''
   \<and> newFileName (CHR ''.'' # ''gitignore'') = ''.mp3''"
proof -
  have h: "\<not> has_final_ext ''archive.''"
    by (simp add: has_final_ext_def final_ext_def)
  have g: "''gitignore'' \<noteq> [] \<and> CHR ''.'' \<notin> set ''gitignore'' \<and> CHR ''/'' \<notin> set ''gitignore''"
    by simp
  from h g naming_edge_cases [of "''archive.''" "''gitignore''"]
  show ?thesis by blast
qed

end
